theory Spec2Isabelle
  imports Main "HOL-Library.Sublist"
begin

section \<open>Events, handlers and completions\<close>

text \<open>
  The vendored design-system bundle \<^verbatim>\<open>index-Dj5HeQWT.js\<close> contains three small hooks,
  \<^verbatim>\<open>useCallbackOnEnter\<close>, \<^verbatim>\<open>useCallbackOnceUntilReset\<close> and \<^verbatim>\<open>useChainEventHandlers\<close>,
  and the two form-submit callbacks of \<^verbatim>\<open>Input\<close> and \<^verbatim>\<open>TextArea\<close>. They are embedded
  here function by function.

  An event object carries the fields the hooks read (\<^verbatim>\<open>key\<close>, the four modifier flags)
  and the one flag handlers write (\<^verbatim>\<open>defaultPrevented\<close>).
\<close>

record event =
  key :: string
  metaKey :: bool
  ctrlKey :: bool
  shiftKey :: bool
  altKey :: bool
  defaultPrevented :: bool

text \<open>
  A JavaScript call either returns or throws. \<open>TypeError\<close> is what calling \<^verbatim>\<open>null\<close> or
  \<^verbatim>\<open>undefined\<close> throws; \<open>Error\<close> stands for whatever a user-supplied function throws.
\<close>

datatype exn = TypeError | Error string

datatype completion = Normal | Throw exn

text \<open>
  A function that is handed the event object may mutate it and the rest of the
  environment \<open>'w\<close>, and completes normally or abruptly; mutations made before a throw
  persist, so the event and the environment are returned in both cases.
\<close>

type_synonym 'w fn = "event \<Rightarrow> 'w \<Rightarrow> completion \<times> event \<times> 'w"

text \<open>
  A JavaScript value that is \<^verbatim>\<open>null\<close>, \<^verbatim>\<open>undefined\<close> or a proper value. An entry of a
  handler array is such a value ("Optional handlers are allowed for convenience").
\<close>

datatype 'a nullable = Null | Undefined | Val 'a

type_synonym 'w handler = "'w fn nullable"

text \<open>The test \<^verbatim>\<open>v === null || v === void 0\<close>.\<close>

fun absent :: "'a nullable \<Rightarrow> bool" where
  "absent Null = True"
| "absent Undefined = True"
| "absent (Val v) = False"

text \<open>The call expression \<^verbatim>\<open>handler(event)\<close>: calling a non-function throws.\<close>

fun js_call :: "'w handler \<Rightarrow> 'w fn" where
  "js_call (Val f) e w = f e w"
| "js_call Null e w = (Throw TypeError, e, w)"
| "js_call Undefined e w = (Throw TypeError, e, w)"

text \<open>
  An optional boolean property: \<open>None\<close> is a property left out of the object literal
  (\<^verbatim>\<open>undefined\<close>, falsy).
\<close>

fun truthy :: "bool option \<Rightarrow> bool" where
  "truthy None = False"
| "truthy (Some b) = b"

section \<open>useChainEventHandlers\<close>

text \<open>
  \<^verbatim>\<open>
  const useChainEventHandlers = props => {
    const { handlers, stopOnDefaultPrevented } = props;
    return useCallback(event => {
      for (const handler of handlers) {
        if (stopOnDefaultPrevented && event.defaultPrevented) return;
        handler === null || handler === void 0 || handler(event);
      }
    }, [handlers, stopOnDefaultPrevented]);
  };
  \<close>
\<close>

record 'w chain_props =
  handlers :: "'w handler list"
  stopOnDefaultPrevented :: "bool option"

text \<open>
  The loop, from array position \<open>i\<close> on. Besides the completion, the event and the
  environment, it returns the positions of the entries it called, in call order: a
  history of the run that no handler can touch.
\<close>

fun chain_loop ::
  "bool option \<Rightarrow> nat \<Rightarrow> 'w handler list \<Rightarrow> event \<Rightarrow> 'w \<Rightarrow> nat list \<times> completion \<times> event \<times> 'w"
where
  "chain_loop stop i [] e w = ([], Normal, e, w)"
| "chain_loop stop i (h # hs) e w =
     (if truthy stop \<and> defaultPrevented e then ([], Normal, e, w)
      else if absent h then chain_loop stop (Suc i) hs e w
      else (case js_call h e w of
              (Throw x, e', w') \<Rightarrow> ([i], Throw x, e', w')
            | (Normal, e', w') \<Rightarrow>
                (case chain_loop stop (Suc i) hs e' w' of
                   (called, r) \<Rightarrow> (i # called, r))))"

definition useChainEventHandlers ::
  "'w chain_props \<Rightarrow> event \<Rightarrow> 'w \<Rightarrow> nat list \<times> completion \<times> event \<times> 'w"
where
  "useChainEventHandlers props e w =
     chain_loop (stopOnDefaultPrevented props) 0 (handlers props) e w"

text \<open>Projections of a run of the chain.\<close>

definition invoked :: "nat list \<times> completion \<times> event \<times> 'w \<Rightarrow> nat list" where
  "invoked r = fst r"

definition outcome :: "nat list \<times> completion \<times> event \<times> 'w \<Rightarrow> completion" where
  "outcome r = fst (snd r)"

definition final_event :: "nat list \<times> completion \<times> event \<times> 'w \<Rightarrow> event" where
  "final_event r = fst (snd (snd r))"

definition final_env :: "nat list \<times> completion \<times> event \<times> 'w \<Rightarrow> 'w" where
  "final_env r = snd (snd (snd r))"

section \<open>useCallbackOnEnter\<close>

text \<open>
  \<^verbatim>\<open>
  const useCallbackOnEnter = _ref => {
    let { callback, allowBasicEnter, allowPlatformEnter } = _ref;
    const isMacOs = useMemo(() => navigator.userAgent.includes('Mac'), []);
    const isComposing = useRef(false);
    const onCompositionStart = useCallback(() => { isComposing.current = true; }, []);
    const onCompositionEnd = useCallback(() => { isComposing.current = false; }, []);
    const onKeyDown = useCallback(event => {
      if (event.key !== 'Enter') return;
      if (isComposing.current) return;
      if (!allowBasicEnter && !allowPlatformEnter) return;
      const basicEnter = allowBasicEnter && !event.metaKey && !event.ctrlKey
                         && !event.shiftKey && !event.altKey;
      const platformEnter = allowPlatformEnter && (isMacOs ? event.metaKey : event.ctrlKey);
      const isValidEnterPress = basicEnter || platformEnter;
      if (isValidEnterPress) callback(event);
    }, [allowBasicEnter, allowPlatformEnter, callback, isMacOs]);
    return { onKeyDown, onCompositionEnd, onCompositionStart };
  };
  \<close>
\<close>

record 'w gate_props =
  callback :: "'w fn"
  allowBasicEnter :: bool
  allowPlatformEnter :: bool

text \<open>
  What the three closures of one instance share and never change: the props and the
  platform flag, computed once from the user-agent string.
\<close>

record 'w gate =
  config :: "'w gate_props"
  isMacOs :: bool

definition useCallbackOnEnter :: "'w gate_props \<Rightarrow> string \<Rightarrow> 'w gate" where
  "useCallbackOnEnter props userAgent =
     \<lparr>config = props, isMacOs = sublist ''Mac'' userAgent\<rparr>"

text \<open>
  What the closures mutate: the ref cell \<^verbatim>\<open>isComposing.current\<close> and, through the
  callback, the environment. \<open>calls\<close> is a history variable: the events the callback has
  been invoked with, oldest first; the callback cannot reach it, nor the ref cell.
\<close>

record 'w gate_state =
  isComposing :: bool
  calls :: "event list"
  env :: 'w

text \<open>\<^verbatim>\<open>useRef(false)\<close>, with nothing called yet.\<close>

definition gate_init :: "'w \<Rightarrow> 'w gate_state" where
  "gate_init w = \<lparr>isComposing = False, calls = [], env = w\<rparr>"

definition onCompositionStart :: "('w gate_state) fn" where
  "onCompositionStart e st = (Normal, e, st\<lparr>isComposing := True\<rparr>)"

definition onCompositionEnd :: "('w gate_state) fn" where
  "onCompositionEnd e st = (Normal, e, st\<lparr>isComposing := False\<rparr>)"

definition onKeyDown :: "'w gate \<Rightarrow> ('w gate_state) fn" where
  "onKeyDown g e st =
     (if key e \<noteq> ''Enter'' then (Normal, e, st)
      else if isComposing st then (Normal, e, st)
      else if \<not> allowBasicEnter (config g) \<and> \<not> allowPlatformEnter (config g)
        then (Normal, e, st)
      else
        let basicEnter = (allowBasicEnter (config g) \<and> \<not> metaKey e \<and> \<not> ctrlKey e
                            \<and> \<not> shiftKey e \<and> \<not> altKey e);
            platformEnter = (allowPlatformEnter (config g)
                               \<and> (if isMacOs g then metaKey e else ctrlKey e));
            isValidEnterPress = (basicEnter \<or> platformEnter)
        in if isValidEnterPress
           then (case callback (config g) e (env st) of
                   (c, e', w') \<Rightarrow> (c, e', st\<lparr>calls := calls st @ [e], env := w'\<rparr>))
           else (Normal, e, st))"

text \<open>
  The three kinds of event the text input delivers, each with its event object, and the
  delivery of a sequence of them. Every event is handled to completion before the next;
  an exception escaping a handler does not stop later events from being delivered.
\<close>

datatype input = CompositionStart event | CompositionEnd event | KeyDown event

fun deliver :: "'w gate \<Rightarrow> input \<Rightarrow> 'w gate_state \<Rightarrow> completion \<times> event \<times> 'w gate_state" where
  "deliver g (CompositionStart e) st = onCompositionStart e st"
| "deliver g (CompositionEnd e) st = onCompositionEnd e st"
| "deliver g (KeyDown e) st = onKeyDown g e st"

fun deliver_all :: "'w gate \<Rightarrow> input list \<Rightarrow> 'w gate_state \<Rightarrow> 'w gate_state" where
  "deliver_all g [] st = st"
| "deliver_all g (i # is) st = deliver_all g is (snd (snd (deliver g i st)))"

fun isStart :: "input \<Rightarrow> bool" where
  "isStart (CompositionStart e) = True"
| "isStart _ = False"

fun isEnd :: "input \<Rightarrow> bool" where
  "isEnd (CompositionEnd e) = True"
| "isEnd _ = False"

text \<open>
  "Between a compositionstart and the next compositionend", said of the moment after
  the inputs \<open>ins\<close>: some compositionstart has been delivered and no compositionend
  after it.
\<close>

definition composition_active :: "input list \<Rightarrow> bool" where
  "composition_active ins =
     (\<exists>i \<in> {..<length ins}. isStart (ins ! i) \<and> (\<forall>j \<in> {i<..<length ins}. \<not> isEnd (ins ! j)))"

text \<open>An Enter keydown with none of Meta, Ctrl, Shift, Alt held.\<close>

definition plainEnter :: "event \<Rightarrow> bool" where
  "plainEnter e = (key e = ''Enter'' \<and> \<not> metaKey e \<and> \<not> ctrlKey e \<and> \<not> shiftKey e \<and> \<not> altKey e)"

section \<open>useCallbackOnceUntilReset\<close>

text \<open>
  \<^verbatim>\<open>
  const useCallbackOnceUntilReset = callback => {
    const canTriggerRef = useRef(true);
    const reset = useCallback(() => { canTriggerRef.current = true; }, []);
    const callbackOnceUntilReset = useCallback(() => {
      if (canTriggerRef.current) {
        callback();
        canTriggerRef.current = false;
      }
    }, [callback]);
    return { callbackOnceUntilReset, reset };
  };
  \<close>
  The wrapped callback takes no argument. It is a closure: besides changing its
  environment and throwing, it may itself call the two returned functions. Its body is
  therefore a small program: it ends by returning or throwing, and before that it may
  update the environment, branch on it, call \<^verbatim>\<open>callbackOnceUntilReset()\<close> and call
  \<^verbatim>\<open>reset()\<close>. It cannot reach the ref cell other than through these two calls.
\<close>

datatype 'w body =
    Return
  | Raise exn
  | Assign "'w \<Rightarrow> 'w" "'w body"
  | Test "'w \<Rightarrow> bool" "'w body" "'w body"
  | CallOnceUntilReset "'w body"
  | CallReset "'w body"

text \<open>
  The ref cell \<^verbatim>\<open>canTriggerRef.current\<close> and the environment. \<open>invocations\<close> is a history
  variable counting the calls of the wrapped callback.
\<close>

record 'w once_state =
  canTriggerRef :: bool
  invocations :: nat
  once_env :: 'w

text \<open>\<^verbatim>\<open>useRef(true)\<close>, with nothing called yet.\<close>

definition once_init :: "'w \<Rightarrow> 'w once_state" where
  "once_init w = \<lparr>canTriggerRef = True, invocations = 0, once_env = w\<rparr>"

definition reset :: "'w once_state \<Rightarrow> completion \<times> 'w once_state" where
  "reset st = (Normal, st\<lparr>canTriggerRef := True\<rparr>)"

text \<open>
  \<open>callbackOnceUntilReset n cb\<close> is the returned function for the wrapped callback
  \<open>cb\<close>, and \<open>exec n cb b\<close> runs the rest \<open>b\<close> of an activation of \<open>cb\<close>. A callback that
  calls \<^verbatim>\<open>callbackOnceUntilReset()\<close> finds the flag as it is at that moment: the
  assignment \<^verbatim>\<open>canTriggerRef.current = false\<close> of an activation is made only after its
  \<^verbatim>\<open>callback()\<close> has returned, and not at all when that call throws. Such nesting need
  not end; \<open>n\<close> bounds the depth of nested activations of the callback, and \<open>None\<close> says
  that the bound was reached.
\<close>

fun callbackOnceUntilReset ::
      "nat \<Rightarrow> 'w body \<Rightarrow> 'w once_state \<Rightarrow> (completion \<times> 'w once_state) option"
  and exec ::
      "nat \<Rightarrow> 'w body \<Rightarrow> 'w body \<Rightarrow> 'w once_state \<Rightarrow> (completion \<times> 'w once_state) option"
where
  "callbackOnceUntilReset 0 cb st =
     (if canTriggerRef st then None else Some (Normal, st))"
| "callbackOnceUntilReset (Suc n) cb st =
     (if canTriggerRef st then
        (case exec n cb cb (st\<lparr>invocations := Suc (invocations st)\<rparr>) of
           None \<Rightarrow> None
         | Some (Throw x, st') \<Rightarrow> Some (Throw x, st')
         | Some (Normal, st') \<Rightarrow> Some (Normal, st'\<lparr>canTriggerRef := False\<rparr>))
      else Some (Normal, st))"
| "exec n cb Return st = Some (Normal, st)"
| "exec n cb (Raise x) st = Some (Throw x, st)"
| "exec n cb (Assign f b) st = exec n cb b (st\<lparr>once_env := f (once_env st)\<rparr>)"
| "exec n cb (Test p b1 b2) st = (if p (once_env st) then exec n cb b1 st else exec n cb b2 st)"
| "exec n cb (CallOnceUntilReset b) st =
     (case callbackOnceUntilReset n cb st of
        None \<Rightarrow> None
      | Some (Throw x, st') \<Rightarrow> Some (Throw x, st')
      | Some (Normal, st') \<Rightarrow> exec n cb b st')"
| "exec n cb (CallReset b) st = exec n cb b (snd (reset st))"

text \<open>
  A sequence of calls of the two returned functions from outside. An exception escaping
  one call reaches that call's caller; the calls after it are still made.
\<close>

datatype once_call = CallOnce | Reset

fun once_step ::
  "nat \<Rightarrow> 'w body \<Rightarrow> once_call \<Rightarrow> 'w once_state \<Rightarrow> (completion \<times> 'w once_state) option"
where
  "once_step n cb CallOnce st = callbackOnceUntilReset n cb st"
| "once_step n cb Reset st = Some (reset st)"

fun once_run :: "nat \<Rightarrow> 'w body \<Rightarrow> once_call list \<Rightarrow> 'w once_state \<Rightarrow> 'w once_state option" where
  "once_run n cb [] st = Some st"
| "once_run n cb (c # cs) st =
     (case once_step n cb c st of None \<Rightarrow> None | Some (r, st') \<Rightarrow> once_run n cb cs st')"

text \<open>
  Call number \<open>i\<close> of the sequence \<open>cs\<close> is the first \<^verbatim>\<open>callbackOnceUntilReset\<close> since
  creation or since the latest \<^verbatim>\<open>reset\<close>: every earlier \<^verbatim>\<open>callbackOnceUntilReset\<close> has
  a \<^verbatim>\<open>reset\<close> between it and \<open>i\<close>.
\<close>

definition first_since_reset :: "once_call list \<Rightarrow> nat \<Rightarrow> bool" where
  "first_since_reset cs i =
     (\<forall>j \<in> {..<i}. cs ! j = CallOnce \<longrightarrow> (\<exists>k \<in> {j<..<i}. cs ! k = Reset))"

text \<open>A callback that does not itself call either of the returned functions.\<close>

fun plain :: "'w body \<Rightarrow> bool" where
  "plain Return = True"
| "plain (Raise x) = True"
| "plain (Assign f b) = plain b"
| "plain (Test p b1 b2) = (plain b1 \<and> plain b2)"
| "plain (CallOnceUntilReset b) = False"
| "plain (CallReset b) = False"

text \<open>
  What one run of such a callback does by itself: how it completes and the environment
  it leaves.
\<close>

fun own_effect :: "'w body \<Rightarrow> 'w \<Rightarrow> completion \<times> 'w" where
  "own_effect Return w = (Normal, w)"
| "own_effect (Raise x) w = (Throw x, w)"
| "own_effect (Assign f b) w = own_effect b (f w)"
| "own_effect (Test p b1 b2) w = (if p w then own_effect b1 w else own_effect b2 w)"
| "own_effect (CallOnceUntilReset b) w = own_effect b w"
| "own_effect (CallReset b) w = own_effect b w"

section \<open>The form-submit callbacks of Input and TextArea\<close>

text \<open>
  \<^verbatim>\<open>
  const onFormSubmit = useCallback(e => {
    var _formContext$formRef;
    if (!((_formContext$formRef = formContext.formRef) !== null
          && _formContext$formRef !== void 0 && _formContext$formRef.current)) return;
    e.preventDefault();
    formContext.formRef.current.requestSubmit();
  }, [formContext.formRef]);
  \<close>
  and \<^verbatim>\<open>handleSubmitForm\<close> in \<^verbatim>\<open>TextArea\<close>, with the same body. The form context holds
  an optional ref object whose \<^verbatim>\<open>current\<close> is the form element or nothing. The
  environment of these callbacks is the sequence of calls made on the two collaborators,
  the event and the form element, oldest first.
\<close>

datatype form = Form string

record form_ref =
  current :: "form nullable"

record form_context =
  formRef :: "form_ref nullable"

datatype dom_call = PreventDefault | RequestSubmit form

definition preventDefault :: "event \<Rightarrow> dom_call list \<Rightarrow> event \<times> dom_call list" where
  "preventDefault e tr = (e\<lparr>defaultPrevented := True\<rparr>, tr @ [PreventDefault])"

definition requestSubmit :: "form \<Rightarrow> dom_call list \<Rightarrow> dom_call list" where
  "requestSubmit f tr = tr @ [RequestSubmit f]"

text \<open>
  The guard's value \<^verbatim>\<open>formRef !== null && formRef !== void 0 && formRef.current\<close>, when
  truthy, is the attached form element.
\<close>

fun attached_form :: "form_context \<Rightarrow> form option" where
  "attached_form fc =
     (case formRef fc of
        Null \<Rightarrow> None
      | Undefined \<Rightarrow> None
      | Val r \<Rightarrow> (case current r of Null \<Rightarrow> None | Undefined \<Rightarrow> None | Val f \<Rightarrow> Some f))"

definition onFormSubmit :: "form_context \<Rightarrow> (dom_call list) fn" where
  "onFormSubmit formContext e tr =
     (case attached_form formContext of
        None \<Rightarrow> (Normal, e, tr)
      | Some f \<Rightarrow> (case preventDefault e tr of (e', tr') \<Rightarrow> (Normal, e', requestSubmit f tr')))"

definition handleSubmitForm :: "form_context \<Rightarrow> (dom_call list) fn" where
  "handleSubmitForm formContext event tr =
     (case attached_form formContext of
        None \<Rightarrow> (Normal, event, tr)
      | Some f \<Rightarrow> (case preventDefault event tr of (e', tr') \<Rightarrow> (Normal, e', requestSubmit f tr')))"

text \<open>The gates the two components build around these callbacks.\<close>

definition Input_submitHandlers :: "form_context \<Rightarrow> string \<Rightarrow> (dom_call list) gate" where
  "Input_submitHandlers formContext userAgent =
     useCallbackOnEnter
       \<lparr>callback = onFormSubmit formContext, allowBasicEnter = True, allowPlatformEnter = True\<rparr>
       userAgent"

definition TextArea_submitHandlers :: "form_context \<Rightarrow> bool \<Rightarrow> string \<Rightarrow> (dom_call list) gate" where
  "TextArea_submitHandlers formContext allowFormSubmitOnEnter userAgent =
     useCallbackOnEnter
       \<lparr>callback = handleSubmitForm formContext, allowBasicEnter = allowFormSubmitOnEnter,
        allowPlatformEnter = True\<rparr>
       userAgent"


section \<open>Named properties and sample values\<close>

text \<open>
  The condition under which \<^verbatim>\<open>onKeyDown\<close> is to call the callback, in the words of the
  specification: an Enter keydown outside composition that is a basic Enter (allowed, no
  modifier held) or a platform Enter (allowed, Meta held on a Mac-like platform, Ctrl
  elsewhere).
\<close>

definition qualifyingEnter :: "'w gate \<Rightarrow> 'w gate_state \<Rightarrow> event \<Rightarrow> bool" where
  "qualifyingEnter g st e =
     (key e = ''Enter'' \<and> \<not> isComposing st \<and>
        ((allowBasicEnter (config g) \<and> \<not> metaKey e \<and> \<not> ctrlKey e \<and> \<not> shiftKey e \<and> \<not> altKey e)
         \<or> (allowPlatformEnter (config g) \<and> (if isMacOs g then metaKey e else ctrlKey e))))"

text \<open>
  A keydown on which the callback was invoked exactly once: what \<^verbatim>\<open>onKeyDown\<close> returns is
  what one application of the callback to the event and the environment returns, with
  that call entered in the history.
\<close>

definition invokes_once :: "'w gate \<Rightarrow> event \<Rightarrow> 'w gate_state \<Rightarrow> bool" where
  "invokes_once g e st =
     (onKeyDown g e st =
        (case callback (config g) e (env st) of
           (c, e', w') \<Rightarrow> (c, e', st\<lparr>calls := calls st @ [e], env := w'\<rparr>)))"

text \<open>A keydown whose history of callback invocations is as before.\<close>

definition invokes_not :: "'w gate \<Rightarrow> event \<Rightarrow> 'w gate_state \<Rightarrow> bool" where
  "invokes_not g e st = (calls (snd (snd (onKeyDown g e st))) = calls st)"

text \<open>
  Handlers, events and configurations for the concrete instances below. The environment
  is a counter that every sample function increments, so a call shows in it.
\<close>

definition counting_handler :: "nat fn" where
  "counting_handler e n = (Normal, e, Suc n)"

definition preventing_handler :: "nat fn" where
  "preventing_handler e n = (Normal, e\<lparr>defaultPrevented := True\<rparr>, Suc n)"

definition throwing_handler :: "nat fn" where
  "throwing_handler e n = (Throw (Error ''boom''), e, Suc n)"

definition counting_body :: "nat body" where
  "counting_body = Assign Suc Return"

definition throwing_body :: "nat body" where
  "throwing_body = Assign Suc (Raise (Error ''boom''))"

definition first_time :: "nat \<Rightarrow> bool" where
  "first_time n = (n = 1)"

text \<open>A callback that, the first time it runs, calls \<^verbatim>\<open>callbackOnceUntilReset()\<close> itself.\<close>

definition reentering_body :: "nat body" where
  "reentering_body = Assign Suc (Test first_time (CallOnceUntilReset Return) Return)"

definition enterEvent :: event where
  "enterEvent = \<lparr>key = ''Enter'', metaKey = False, ctrlKey = False, shiftKey = False,
                 altKey = False, defaultPrevented = False\<rparr>"

definition preventedEvent :: event where
  "preventedEvent = \<lparr>key = ''Enter'', metaKey = False, ctrlKey = False, shiftKey = False,
                     altKey = False, defaultPrevented = True\<rparr>"

definition letterEvent :: event where
  "letterEvent = \<lparr>key = ''a'', metaKey = False, ctrlKey = False, shiftKey = False,
                  altKey = False, defaultPrevented = False\<rparr>"

definition basicOnly :: "nat gate_props" where
  "basicOnly = \<lparr>callback = counting_handler, allowBasicEnter = True, allowPlatformEnter = False\<rparr>"

definition platformOnly :: "nat gate_props" where
  "platformOnly = \<lparr>callback = counting_handler, allowBasicEnter = False, allowPlatformEnter = True\<rparr>"

definition macAgent :: string where
  "macAgent = ''Mozilla/5.0 (Macintosh)''"

definition linuxAgent :: string where
  "linuxAgent = ''Mozilla/5.0 (X11; Linux)''"

section \<open>The loop of the event chain\<close>

lemma chain_loop_stopped:
  "truthy stop \<Longrightarrow> defaultPrevented e \<Longrightarrow> chain_loop stop i hs e w = ([], Normal, e, w)"
  by (cases hs) simp_all

lemma chain_loop_skip:
  "\<not> (truthy stop \<and> defaultPrevented e) \<Longrightarrow> absent h \<Longrightarrow>
     chain_loop stop i (h # hs) e w = chain_loop stop (Suc i) hs e w"
  by auto

lemma chain_loop_throw:
  "\<not> (truthy stop \<and> defaultPrevented e) \<Longrightarrow> \<not> absent h \<Longrightarrow> js_call h e w = (Throw x, e', w') \<Longrightarrow>
     chain_loop stop i (h # hs) e w = ([i], Throw x, e', w')"
  by auto

lemma chain_loop_normal:
  "\<not> (truthy stop \<and> defaultPrevented e) \<Longrightarrow> \<not> absent h \<Longrightarrow> js_call h e w = (Normal, e', w') \<Longrightarrow>
     chain_loop stop i (h # hs) e w =
       (i # fst (chain_loop stop (Suc i) hs e' w'), snd (chain_loop stop (Suc i) hs e' w'))"
  by (auto split: prod.splits)

declare chain_loop.simps(2) [simp del]

text \<open>The four ways one turn of the loop can go.\<close>

lemma chain_loop_turn [case_names stopped skip throw normal]:
  obtains
    "truthy stop" and "defaultPrevented e"
      and "\<And>i. chain_loop stop i (h # hs) e w = ([], Normal, e, w)"
  | "\<not> (truthy stop \<and> defaultPrevented e)" and "absent h"
      and "\<And>i. chain_loop stop i (h # hs) e w = chain_loop stop (Suc i) hs e w"
  | x e' w' where "\<not> (truthy stop \<and> defaultPrevented e)" and "\<not> absent h"
      and "js_call h e w = (Throw x, e', w')"
      and "\<And>i. chain_loop stop i (h # hs) e w = ([i], Throw x, e', w')"
  | e' w' where "\<not> (truthy stop \<and> defaultPrevented e)" and "\<not> absent h"
      and "js_call h e w = (Normal, e', w')"
      and "\<And>i. chain_loop stop i (h # hs) e w =
             (i # fst (chain_loop stop (Suc i) hs e' w'), snd (chain_loop stop (Suc i) hs e' w'))"
proof (cases "truthy stop \<and> defaultPrevented e")
  case True
  then show ?thesis by (intro that(1)) (simp_all add: chain_loop_stopped)
next
  case go: False
  show ?thesis
  proof (cases "absent h")
    case True
    with go show ?thesis by (intro that(2)) (simp_all add: chain_loop_skip)
  next
    case False
    obtain c e' w' where r: "js_call h e w = (c, e', w')" by (cases "js_call h e w")
    show ?thesis
    proof (cases c)
      case Normal
      with go False r show ?thesis by (intro that(4)[of e' w']) (simp_all add: chain_loop_normal)
    next
      case (Throw x)
      with go False r show ?thesis by (intro that(3)[of x e' w']) (simp_all add: chain_loop_throw)
    qed
  qed
qed

lemma chain_loop_filter:
  "snd (chain_loop stop i hs e w) = snd (chain_loop stop j (filter (\<lambda>h. \<not> absent h) hs) e w)"
proof (induction hs arbitrary: i j e w)
  case Nil
  show ?case by simp
next
  case (Cons h hs)
  show ?case
  proof (cases rule: chain_loop_turn[of stop e h hs w])
    case stopped
    then show ?thesis by (simp add: chain_loop_stopped)
  next
    case skip
    then show ?thesis using Cons.IH by simp
  next
    case (throw x e' w')
    then show ?thesis by (simp add: chain_loop_throw)
  next
    case (normal e' w')
    then show ?thesis using Cons.IH[where i="Suc i" and j="Suc j"] by (simp add: chain_loop_normal)
  qed
qed

lemma chain_loop_shift:
  "chain_loop stop (i + d) hs e w =
     (map (\<lambda>k. k + d) (fst (chain_loop stop i hs e w)), snd (chain_loop stop i hs e w))"
proof (induction hs arbitrary: i e w)
  case Nil
  show ?case by simp
next
  case (Cons h hs)
  show ?case
  proof (cases rule: chain_loop_turn[of stop e h hs w])
    case stopped
    then show ?thesis by simp
  next
    case skip
    then show ?thesis using Cons.IH[of "Suc i" e w] by simp
  next
    case (throw x e' w')
    then show ?thesis by simp
  next
    case (normal e' w')
    then show ?thesis using Cons.IH[of "Suc i" e' w'] by simp
  qed
qed

lemma chain_loop_append:
  "chain_loop stop i (xs @ ys) e w =
     (if fst (snd (chain_loop stop i xs e w)) = Normal
      then (fst (chain_loop stop i xs e w)
              @ fst (chain_loop stop (i + length xs) ys
                       (fst (snd (snd (chain_loop stop i xs e w))))
                       (snd (snd (snd (chain_loop stop i xs e w))))),
            snd (chain_loop stop (i + length xs) ys
                   (fst (snd (snd (chain_loop stop i xs e w))))
                   (snd (snd (snd (chain_loop stop i xs e w))))))
      else chain_loop stop i xs e w)"
proof (induction xs arbitrary: i e w)
  case Nil
  show ?case by simp
next
  case (Cons h xs)
  show ?case
  proof (cases rule: chain_loop_turn[of stop e h xs w])
    case stopped
    then show ?thesis by (simp add: chain_loop_stopped)
  next
    case skip
    then show ?thesis using Cons.IH[of "Suc i" e w] by (simp add: chain_loop_skip)
  next
    case (throw x e' w')
    then show ?thesis by (simp add: chain_loop_throw)
  next
    case (normal e' w')
    then show ?thesis using Cons.IH[of "Suc i" e' w'] by (simp add: chain_loop_normal)
  qed
qed

lemma chain_loop_single:
  "chain_loop stop i [h] e w =
     (if (truthy stop \<and> defaultPrevented e) \<or> absent h then ([], Normal, e, w)
      else ([i], js_call h e w))"
proof (cases rule: chain_loop_turn[of stop e h "[]" w])
  case stopped
  then show ?thesis by simp
next
  case skip
  then show ?thesis by simp
next
  case (throw x e' w')
  then show ?thesis by simp
next
  case (normal e' w')
  then show ?thesis by simp
qed

lemma chain_loop_snoc:
  "chain_loop stop 0 (xs @ [h]) e w =
     (let P = chain_loop stop 0 xs e w in
      if fst (snd P) = Normal \<and> \<not> (truthy stop \<and> defaultPrevented (fst (snd (snd P)))) \<and> \<not> absent h
      then (fst P @ [length xs], js_call h (fst (snd (snd P))) (snd (snd (snd P))))
      else P)"
  by (cases "chain_loop stop 0 xs e w")
     (auto simp add: chain_loop_append chain_loop_single Let_def)

lemma chain_loop_returns:
  "\<forall>f e w. Val f \<in> set hs \<longrightarrow> fst (f e w) = Normal \<Longrightarrow>
     fst (snd (chain_loop stop i hs e w)) = Normal"
proof (induction hs arbitrary: i e w)
  case Nil
  show ?case by simp
next
  case (Cons h hs)
  then have IH: "\<And>i e w. fst (snd (chain_loop stop i hs e w)) = Normal" by simp
  show ?case
  proof (cases rule: chain_loop_turn[of stop e h hs w])
    case stopped
    then show ?thesis by simp
  next
    case skip
    then show ?thesis using IH by simp
  next
    case (throw x e' w')
    from throw(2) obtain f where "h = Val f" by (cases h) simp_all
    moreover from this Cons.prems have "fst (f e w) = Normal" by simp
    ultimately have False using throw(3) by simp
    then show ?thesis ..
  next
    case (normal e' w')
    then show ?thesis using IH by simp
  qed
qed

section \<open>Claims about the event chain\<close>

text \<open>
  Claim C1, as written, says that the default-prevented check is skipped before the first
  handler. The loop makes the check at the top of every turn, the first included.
  For a chain whose first entry is a present handler \<open>h1\<close>: if
  \<^verbatim>\<open>stopOnDefaultPrevented\<close> is truthy and the event is already default-prevented when the
  chained function is called, it returns at once, no handler is applied and nothing
  changes; otherwise \<open>h1\<close> is applied to the event and the environment, and if it returns
  normally the chain goes on, from what \<open>h1\<close> left, exactly as the chain of the remaining
  entries does. And for the present handler \<open>f\<close> at any position \<open>k\<close> of any chain: the
  run over the first \<open>k + 1\<close> entries is the run over the first \<open>k\<close>, followed by \<open>f\<close>
  applied to what that run left if it completed normally and the check does not stop
  the loop, and by nothing otherwise.
\<close>

theorem chain_checks_before_every_handler:
  "useChainEventHandlers \<lparr>handlers = Val h1 # hs, stopOnDefaultPrevented = stop\<rparr> e w =
     (if truthy stop \<and> defaultPrevented e then ([], Normal, e, w)
      else if fst (h1 e w) = Normal
      then (0 # map Suc (invoked (useChainEventHandlers
                                    \<lparr>handlers = hs, stopOnDefaultPrevented = stop\<rparr>
                                    (fst (snd (h1 e w))) (snd (snd (h1 e w))))),
            snd (useChainEventHandlers \<lparr>handlers = hs, stopOnDefaultPrevented = stop\<rparr>
                   (fst (snd (h1 e w))) (snd (snd (h1 e w)))))
      else ([0], h1 e w))
   \<and> (\<forall>k f. k < length gs \<and> gs ! k = Val f \<longrightarrow>
        useChainEventHandlers \<lparr>handlers = take (Suc k) gs, stopOnDefaultPrevented = stop\<rparr> e w =
          (let P = useChainEventHandlers \<lparr>handlers = take k gs, stopOnDefaultPrevented = stop\<rparr> e w
           in if outcome P = Normal \<and> \<not> (truthy stop \<and> defaultPrevented (final_event P))
              then (invoked P @ [k], f (final_event P) (final_env P))
              else P))"
proof (intro conjI allI impI)
  obtain c e1 w1 where r: "h1 e w = (c, e1, w1)" by (cases "h1 e w")
  have shift: "chain_loop stop (Suc 0) hs e1 w1 =
      (map Suc (fst (chain_loop stop 0 hs e1 w1)), snd (chain_loop stop 0 hs e1 w1))"
    using chain_loop_shift[of stop 0 "Suc 0" hs e1 w1] by simp
  show "useChainEventHandlers \<lparr>handlers = Val h1 # hs, stopOnDefaultPrevented = stop\<rparr> e w =
     (if truthy stop \<and> defaultPrevented e then ([], Normal, e, w)
      else if fst (h1 e w) = Normal
      then (0 # map Suc (invoked (useChainEventHandlers
                                    \<lparr>handlers = hs, stopOnDefaultPrevented = stop\<rparr>
                                    (fst (snd (h1 e w))) (snd (snd (h1 e w))))),
            snd (useChainEventHandlers \<lparr>handlers = hs, stopOnDefaultPrevented = stop\<rparr>
                   (fst (snd (h1 e w))) (snd (snd (h1 e w)))))
      else ([0], h1 e w))"
    using r shift
    by (cases c) (auto simp add: useChainEventHandlers_def invoked_def chain_loop.simps(2))
next
  fix k f
  assume a: "k < length gs \<and> gs ! k = Val f"
  then have t: "take (Suc k) gs = take k gs @ [Val f]"
    by (simp add: take_Suc_conv_app_nth)
  from a have l: "length (take k gs) = k" by simp
  show "useChainEventHandlers \<lparr>handlers = take (Suc k) gs, stopOnDefaultPrevented = stop\<rparr> e w =
          (let P = useChainEventHandlers \<lparr>handlers = take k gs, stopOnDefaultPrevented = stop\<rparr> e w
           in if outcome P = Normal \<and> \<not> (truthy stop \<and> defaultPrevented (final_event P))
              then (invoked P @ [k], f (final_event P) (final_env P))
              else P)"
    using a
    unfolding useChainEventHandlers_def outcome_def final_event_def final_env_def invoked_def
    by (auto simp add: t chain_loop_snoc Let_def min_def)
qed

text \<open>
  Claim C1 fails at an explicit input: with the flag already set and
  \<^verbatim>\<open>stopOnDefaultPrevented\<close> true, the one present handler is not invoked; the counter it
  would have incremented is unchanged.
\<close>

theorem chain_first_handler_counterexample:
  "defaultPrevented preventedEvent
   \<and> invoked (useChainEventHandlers
                \<lparr>handlers = [Val counting_handler], stopOnDefaultPrevented = Some True\<rparr>
                preventedEvent 0) = []
   \<and> final_env (useChainEventHandlers
                  \<lparr>handlers = [Val counting_handler], stopOnDefaultPrevented = Some True\<rparr>
                  preventedEvent 0) = 0"
  by (simp add: invoked_def final_env_def useChainEventHandlers_def chain_loop_stopped
      preventedEvent_def)

text \<open>
  The theorem for C1 at concrete chains: stopped before the first handler, not stopped,
  and stopped before the second handler.
\<close>

theorem chain_checks_before_every_handler_witness:
  "truthy (Some True) \<and> defaultPrevented preventedEvent
   \<and> useChainEventHandlers
        \<lparr>handlers = [Val counting_handler, Undefined], stopOnDefaultPrevented = Some True\<rparr>
        preventedEvent 0 = ([], Normal, preventedEvent, 0)
   \<and> \<not> defaultPrevented enterEvent
   \<and> useChainEventHandlers
        \<lparr>handlers = [Val counting_handler, Undefined], stopOnDefaultPrevented = Some True\<rparr>
        enterEvent 0 = ([0], Normal, enterEvent, 1)
   \<and> (1::nat) < length [Val preventing_handler, Val counting_handler]
   \<and> [Val preventing_handler, Val counting_handler] ! 1 = Val counting_handler
   \<and> useChainEventHandlers
        \<lparr>handlers = [Val preventing_handler, Val counting_handler],
         stopOnDefaultPrevented = Some True\<rparr> enterEvent 0
       = ([0], Normal, enterEvent\<lparr>defaultPrevented := True\<rparr>, 1)"
proof -
  have p: "useChainEventHandlers
        \<lparr>handlers = [Val counting_handler, Undefined], stopOnDefaultPrevented = Some True\<rparr>
        preventedEvent 0 = ([], Normal, preventedEvent, 0)"
    using chain_checks_before_every_handler[of counting_handler "[Undefined]" "Some True" preventedEvent 0 "[]"]
    by (simp add: preventedEvent_def)
  have u: "useChainEventHandlers \<lparr>handlers = [Undefined], stopOnDefaultPrevented = Some True\<rparr>
             enterEvent (Suc 0) = ([], Normal, enterEvent, Suc 0)"
    by (simp add: useChainEventHandlers_def chain_loop.simps(2))
  have q: "useChainEventHandlers
        \<lparr>handlers = [Val counting_handler, Undefined], stopOnDefaultPrevented = Some True\<rparr>
        enterEvent 0 = ([0], Normal, enterEvent, 1)"
    using chain_checks_before_every_handler[of counting_handler "[Undefined]" "Some True" enterEvent 0 "[]"] u
    by (simp add: enterEvent_def counting_handler_def invoked_def)
  have P: "useChainEventHandlers
        \<lparr>handlers = [Val preventing_handler], stopOnDefaultPrevented = Some True\<rparr> enterEvent 0
       = ([0], Normal, enterEvent\<lparr>defaultPrevented := True\<rparr>, 1)"
    by (simp add: useChainEventHandlers_def chain_loop.simps(2) enterEvent_def preventing_handler_def)
  have k: "(1::nat) < length [Val preventing_handler, Val counting_handler]"
    "[Val preventing_handler, Val counting_handler] ! 1 = Val counting_handler"
    by simp_all
  have "\<forall>k f. k < length [Val preventing_handler, Val counting_handler]
            \<and> [Val preventing_handler, Val counting_handler] ! k = Val f \<longrightarrow>
        useChainEventHandlers \<lparr>handlers = take (Suc k) [Val preventing_handler, Val counting_handler],
            stopOnDefaultPrevented = Some True\<rparr> enterEvent 0 =
          (let P = useChainEventHandlers \<lparr>handlers = take k [Val preventing_handler, Val counting_handler],
                     stopOnDefaultPrevented = Some True\<rparr> enterEvent 0
           in if outcome P = Normal \<and> \<not> (truthy (Some True) \<and> defaultPrevented (final_event P))
              then (invoked P @ [k], f (final_event P) (final_env P))
              else P)"
    using chain_checks_before_every_handler[of counting_handler "[]" "Some True" enterEvent 0
        "[Val preventing_handler, Val counting_handler]"]
    by blast
  from this[rule_format, of 1 counting_handler] k P
  have r: "useChainEventHandlers
        \<lparr>handlers = [Val preventing_handler, Val counting_handler],
         stopOnDefaultPrevented = Some True\<rparr> enterEvent 0
       = ([0], Normal, enterEvent\<lparr>defaultPrevented := True\<rparr>, 1)"
    by (simp add: outcome_def final_event_def Let_def)
  from p q r k show ?thesis by (simp add: preventedEvent_def enterEvent_def)
qed

text \<open>
  Claim C6. For \<^verbatim>\<open>handlers = [h1, h2]\<close>, both present, an event whose default-prevented
  flag is initially clear, and whatever \<open>h1\<close> makes of the event and the environment:
  if \<^verbatim>\<open>stopOnDefaultPrevented\<close> is truthy and \<open>h1\<close> leaves the flag set, the chained function
  returns what \<open>h1\<close> left and \<open>h2\<close> is not applied; if it is falsy and \<open>h1\<close> returns, \<open>h2\<close>
  is applied to what \<open>h1\<close> left, whether or not \<open>h1\<close> set the flag.
\<close>

theorem chain_two_handlers:
  assumes "\<not> defaultPrevented e" and "h1 e w = (c, e1, w1)"
  shows "(truthy stop \<and> defaultPrevented e1 \<longrightarrow>
            useChainEventHandlers
              \<lparr>handlers = [Val h1, Val h2], stopOnDefaultPrevented = stop\<rparr> e w = ([0], c, e1, w1))
         \<and> (\<not> truthy stop \<and> c = Normal \<longrightarrow>
            useChainEventHandlers
              \<lparr>handlers = [Val h1, Val h2], stopOnDefaultPrevented = stop\<rparr> e w
              = ([0, 1], h2 e1 w1))"
proof -
  obtain c2 e2 w2 where r2: "h2 e1 w1 = (c2, e2, w2)" by (cases "h2 e1 w1")
  from assms r2 show ?thesis
    by (cases c; cases c2)
       (simp_all add: useChainEventHandlers_def chain_loop.simps(2))
qed

text \<open>The theorem for C6 at a concrete chain, once with the flag true and once with it false.\<close>

theorem chain_two_handlers_witness:
  "\<not> defaultPrevented enterEvent
   \<and> preventing_handler enterEvent 0 = (Normal, enterEvent\<lparr>defaultPrevented := True\<rparr>, 1)
   \<and> truthy (Some True) \<and> defaultPrevented (enterEvent\<lparr>defaultPrevented := True\<rparr>)
   \<and> useChainEventHandlers
        \<lparr>handlers = [Val preventing_handler, Val counting_handler],
         stopOnDefaultPrevented = Some True\<rparr> enterEvent 0
       = ([0], Normal, enterEvent\<lparr>defaultPrevented := True\<rparr>, 1)
   \<and> \<not> truthy (Some False)
   \<and> useChainEventHandlers
        \<lparr>handlers = [Val preventing_handler, Val counting_handler],
         stopOnDefaultPrevented = Some False\<rparr> enterEvent 0
       = ([0, 1], Normal, enterEvent\<lparr>defaultPrevented := True\<rparr>, 2)"
proof -
  have n: "\<not> defaultPrevented enterEvent" by (simp add: enterEvent_def)
  have h: "preventing_handler enterEvent 0 = (Normal, enterEvent\<lparr>defaultPrevented := True\<rparr>, 1)"
    by (simp add: preventing_handler_def)
  have c: "counting_handler (enterEvent\<lparr>defaultPrevented := True\<rparr>) 1
             = (Normal, enterEvent\<lparr>defaultPrevented := True\<rparr>, 2)"
    by (simp add: counting_handler_def)
  from n h c
    chain_two_handlers[of enterEvent preventing_handler 0 Normal
      "enterEvent\<lparr>defaultPrevented := True\<rparr>" 1 "Some True" counting_handler, OF n h]
    chain_two_handlers[of enterEvent preventing_handler 0 Normal
      "enterEvent\<lparr>defaultPrevented := True\<rparr>" 1 "Some False" counting_handler, OF n h]
  show ?thesis by simp
qed

text \<open>
  Claim C7. For a handler list with absent entries, whose present handlers return:
  \<^item> the chained function returns normally;
  \<^item> the completion, the event and the environment are those of the chain with the absent
    entries removed;
  \<^item> an absent entry at position \<open>k\<close> is skipped: the run over the first \<open>k + 1\<close> entries
    is the run over the first \<open>k\<close>;
  \<^item> a present handler at position \<open>k\<close> that the short-circuit rule allows (it is not the
    case that \<^verbatim>\<open>stopOnDefaultPrevented\<close> is truthy and the flag is set when the loop
    reaches it) is applied to the event and the environment the entries before it left;
  \<^item> the run over the whole list is the run over the first \<open>k\<close> entries followed by the
    run over the others from what the first left, for every \<open>k\<close>;
  \<^item> with an absent \<open>h1\<close> and a present \<open>h2\<close> that the short-circuit rule allows, \<open>h2\<close> is
    applied to the event and the environment as given.
\<close>

theorem chain_absent_handlers:
  assumes "\<forall>f e w. Val f \<in> set hs \<longrightarrow> fst (f e w) = Normal"
  shows "outcome (useChainEventHandlers \<lparr>handlers = hs, stopOnDefaultPrevented = stop\<rparr> e w) = Normal
   \<and> snd (useChainEventHandlers \<lparr>handlers = hs, stopOnDefaultPrevented = stop\<rparr> e w)
       = snd (useChainEventHandlers
                \<lparr>handlers = filter (\<lambda>h. \<not> absent h) hs, stopOnDefaultPrevented = stop\<rparr> e w)
   \<and> (\<forall>k. k < length hs \<and> absent (hs ! k) \<longrightarrow>
         useChainEventHandlers \<lparr>handlers = take (Suc k) hs, stopOnDefaultPrevented = stop\<rparr> e w
           = useChainEventHandlers \<lparr>handlers = take k hs, stopOnDefaultPrevented = stop\<rparr> e w)
   \<and> (\<forall>k f. k < length hs \<and> hs ! k = Val f
            \<and> \<not> (truthy stop
                  \<and> defaultPrevented
                      (final_event (useChainEventHandlers
                                      \<lparr>handlers = take k hs, stopOnDefaultPrevented = stop\<rparr> e w)))
         \<longrightarrow>
         useChainEventHandlers \<lparr>handlers = take (Suc k) hs, stopOnDefaultPrevented = stop\<rparr> e w
           = (invoked (useChainEventHandlers
                         \<lparr>handlers = take k hs, stopOnDefaultPrevented = stop\<rparr> e w) @ [k],
              f (final_event (useChainEventHandlers
                                \<lparr>handlers = take k hs, stopOnDefaultPrevented = stop\<rparr> e w))
                (final_env (useChainEventHandlers
                              \<lparr>handlers = take k hs, stopOnDefaultPrevented = stop\<rparr> e w))))
   \<and> (\<forall>k. k \<le> length hs \<longrightarrow>
         useChainEventHandlers \<lparr>handlers = hs, stopOnDefaultPrevented = stop\<rparr> e w
           = (invoked (useChainEventHandlers
                         \<lparr>handlers = take k hs, stopOnDefaultPrevented = stop\<rparr> e w)
                @ map (\<lambda>j. j + k)
                    (invoked (useChainEventHandlers
                                \<lparr>handlers = drop k hs, stopOnDefaultPrevented = stop\<rparr>
                                (final_event (useChainEventHandlers
                                   \<lparr>handlers = take k hs, stopOnDefaultPrevented = stop\<rparr> e w))
                                (final_env (useChainEventHandlers
                                   \<lparr>handlers = take k hs, stopOnDefaultPrevented = stop\<rparr> e w)))),
              snd (useChainEventHandlers
                     \<lparr>handlers = drop k hs, stopOnDefaultPrevented = stop\<rparr>
                     (final_event (useChainEventHandlers
                        \<lparr>handlers = take k hs, stopOnDefaultPrevented = stop\<rparr> e w))
                     (final_env (useChainEventHandlers
                        \<lparr>handlers = take k hs, stopOnDefaultPrevented = stop\<rparr> e w)))))
   \<and> (\<forall>a h2. absent a \<and> \<not> (truthy stop \<and> defaultPrevented e) \<longrightarrow>
         useChainEventHandlers \<lparr>handlers = [a, Val h2], stopOnDefaultPrevented = stop\<rparr> e w
           = ([1], h2 e w))"
proof -
  have ret: "fst (snd (chain_loop stop 0 (take k hs) e w)) = Normal" for k
  proof (rule chain_loop_returns)
    show "\<forall>f e w. Val f \<in> set (take k hs) \<longrightarrow> fst (f e w) = Normal"
      using assms by (auto dest: in_set_takeD)
  qed
  have c1: "outcome (useChainEventHandlers \<lparr>handlers = hs, stopOnDefaultPrevented = stop\<rparr> e w) = Normal"
    using chain_loop_returns[OF assms, of stop 0 e w]
    by (simp add: outcome_def useChainEventHandlers_def)
  have c2: "snd (useChainEventHandlers \<lparr>handlers = hs, stopOnDefaultPrevented = stop\<rparr> e w)
       = snd (useChainEventHandlers
                \<lparr>handlers = filter (\<lambda>h. \<not> absent h) hs, stopOnDefaultPrevented = stop\<rparr> e w)"
    by (simp add: useChainEventHandlers_def chain_loop_filter[of stop 0 hs e w 0])
  have c3: "useChainEventHandlers \<lparr>handlers = take (Suc k) hs, stopOnDefaultPrevented = stop\<rparr> e w
           = useChainEventHandlers \<lparr>handlers = take k hs, stopOnDefaultPrevented = stop\<rparr> e w"
    if "k < length hs \<and> absent (hs ! k)" for k
    using that
    by (simp add: useChainEventHandlers_def take_Suc_conv_app_nth chain_loop_snoc Let_def)
  have c4: "useChainEventHandlers \<lparr>handlers = take (Suc k) hs, stopOnDefaultPrevented = stop\<rparr> e w
           = (invoked (useChainEventHandlers
                         \<lparr>handlers = take k hs, stopOnDefaultPrevented = stop\<rparr> e w) @ [k],
              f (final_event (useChainEventHandlers
                                \<lparr>handlers = take k hs, stopOnDefaultPrevented = stop\<rparr> e w))
                (final_env (useChainEventHandlers
                              \<lparr>handlers = take k hs, stopOnDefaultPrevented = stop\<rparr> e w)))"
    if "k < length hs \<and> hs ! k = Val f
            \<and> \<not> (truthy stop
                  \<and> defaultPrevented
                      (final_event (useChainEventHandlers
                                      \<lparr>handlers = take k hs, stopOnDefaultPrevented = stop\<rparr> e w)))"
    for k f
  proof -
    from that have t: "take (Suc k) hs = take k hs @ [Val f]" and l: "length (take k hs) = k"
      by (simp_all add: take_Suc_conv_app_nth)
    from that ret[of k] show ?thesis
      unfolding useChainEventHandlers_def final_event_def final_env_def invoked_def
      by (auto simp add: t chain_loop_snoc Let_def min_def)
  qed
  have c5: "useChainEventHandlers \<lparr>handlers = hs, stopOnDefaultPrevented = stop\<rparr> e w
           = (invoked (useChainEventHandlers
                         \<lparr>handlers = take k hs, stopOnDefaultPrevented = stop\<rparr> e w)
                @ map (\<lambda>j. j + k)
                    (invoked (useChainEventHandlers
                                \<lparr>handlers = drop k hs, stopOnDefaultPrevented = stop\<rparr>
                                (final_event (useChainEventHandlers
                                   \<lparr>handlers = take k hs, stopOnDefaultPrevented = stop\<rparr> e w))
                                (final_env (useChainEventHandlers
                                   \<lparr>handlers = take k hs, stopOnDefaultPrevented = stop\<rparr> e w)))),
              snd (useChainEventHandlers
                     \<lparr>handlers = drop k hs, stopOnDefaultPrevented = stop\<rparr>
                     (final_event (useChainEventHandlers
                        \<lparr>handlers = take k hs, stopOnDefaultPrevented = stop\<rparr> e w))
                     (final_env (useChainEventHandlers
                        \<lparr>handlers = take k hs, stopOnDefaultPrevented = stop\<rparr> e w))))"
    if "k \<le> length hs" for k
  proof -
    from that have l: "length (take k hs) = k" by simp
    have "chain_loop stop 0 hs e w = chain_loop stop 0 (take k hs @ drop k hs) e w" by simp
    also have "\<dots> =
       (fst (chain_loop stop 0 (take k hs) e w)
          @ fst (chain_loop stop (0 + k) (drop k hs)
                   (fst (snd (snd (chain_loop stop 0 (take k hs) e w))))
                   (snd (snd (snd (chain_loop stop 0 (take k hs) e w))))),
        snd (chain_loop stop (0 + k) (drop k hs)
               (fst (snd (snd (chain_loop stop 0 (take k hs) e w))))
               (snd (snd (snd (chain_loop stop 0 (take k hs) e w))))))"
      unfolding chain_loop_append[of stop 0 "take k hs" "drop k hs" e w] l
      using ret[of k] by simp
    finally have whole: "chain_loop stop 0 hs e w =
       (fst (chain_loop stop 0 (take k hs) e w)
          @ fst (chain_loop stop (0 + k) (drop k hs)
                   (fst (snd (snd (chain_loop stop 0 (take k hs) e w))))
                   (snd (snd (snd (chain_loop stop 0 (take k hs) e w))))),
        snd (chain_loop stop (0 + k) (drop k hs)
               (fst (snd (snd (chain_loop stop 0 (take k hs) e w))))
               (snd (snd (snd (chain_loop stop 0 (take k hs) e w))))))" .
    show ?thesis
      unfolding useChainEventHandlers_def final_event_def final_env_def invoked_def
      by (simp only: whole chain_loop_shift[of stop 0 k] chain_props.simps fst_conv snd_conv)
  qed
  have c6: "useChainEventHandlers \<lparr>handlers = [a, Val h2], stopOnDefaultPrevented = stop\<rparr> e w
           = ([1], h2 e w)"
    if "absent a \<and> \<not> (truthy stop \<and> defaultPrevented e)" for a h2
    using that
    by (cases "h2 e w"; cases "fst (h2 e w)")
       (auto simp add: useChainEventHandlers_def chain_loop.simps(2))
  from c1 c2 c3 c4 c5 c6 show ?thesis by blast
qed

text \<open>
  The theorem for C7 at a concrete chain with two absent entries: the chain returns
  normally, the absent third entry changes nothing, and the handler after the absent
  first entry is applied.
\<close>

theorem chain_absent_handlers_witness:
  "outcome (useChainEventHandlers
              \<lparr>handlers = [Null, Val preventing_handler, Undefined, Val counting_handler],
               stopOnDefaultPrevented = Some False\<rparr> enterEvent 0) = Normal
   \<and> (2::nat) < length [Null, Val preventing_handler, Undefined, Val counting_handler]
   \<and> absent ([Null, Val preventing_handler, Undefined, Val counting_handler] ! 2)
   \<and> useChainEventHandlers
        \<lparr>handlers = [Null, Val preventing_handler, Undefined], stopOnDefaultPrevented = Some False\<rparr>
        enterEvent 0
       = useChainEventHandlers
           \<lparr>handlers = [Null, Val preventing_handler], stopOnDefaultPrevented = Some False\<rparr>
           enterEvent 0
   \<and> absent (Null :: nat handler) \<and> \<not> (truthy (Some False) \<and> defaultPrevented enterEvent)
   \<and> useChainEventHandlers
        \<lparr>handlers = [Null, Val preventing_handler], stopOnDefaultPrevented = Some False\<rparr>
        enterEvent 0
       = ([1], Normal, enterEvent\<lparr>defaultPrevented := True\<rparr>, 1)"
proof -
  let ?hs = "[Null, Val preventing_handler, Undefined, Val counting_handler]"
  have ret: "\<forall>f e w. Val f \<in> set ?hs \<longrightarrow> fst (f e w) = Normal"
    by (auto simp add: preventing_handler_def counting_handler_def)
  note t = chain_absent_handlers[OF ret, of "Some False" enterEvent 0]
  from t have o: "outcome (useChainEventHandlers
              \<lparr>handlers = ?hs, stopOnDefaultPrevented = Some False\<rparr> enterEvent 0) = Normal"
    by (rule conjunct1)
  have k: "(2::nat) < length ?hs" "absent (?hs ! 2)" by simp_all
  note t[THEN conjunct2, THEN conjunct2, THEN conjunct1, rule_format, of 2]
  with k
  have s: "useChainEventHandlers
        \<lparr>handlers = [Null, Val preventing_handler, Undefined], stopOnDefaultPrevented = Some False\<rparr>
        enterEvent 0
       = useChainEventHandlers
           \<lparr>handlers = [Null, Val preventing_handler], stopOnDefaultPrevented = Some False\<rparr>
           enterEvent 0"
    by (simp add: numeral_2_eq_2 numeral_3_eq_3)
  have a: "absent (Null :: nat handler)" "\<not> (truthy (Some False) \<and> defaultPrevented enterEvent)"
    by (simp_all add: enterEvent_def)
  note t[THEN conjunct2, THEN conjunct2, THEN conjunct2, THEN conjunct2, THEN conjunct2,
      rule_format, of Null preventing_handler]
  with a
  have p: "useChainEventHandlers
        \<lparr>handlers = [Null, Val preventing_handler], stopOnDefaultPrevented = Some False\<rparr>
        enterEvent 0
       = ([1], Normal, enterEvent\<lparr>defaultPrevented := True\<rparr>, 1)"
    by (simp add: preventing_handler_def)
  from o k s a p show ?thesis by simp
qed

section \<open>The Enter-submit gate\<close>

lemma deliver_all_append:
  "deliver_all g (xs @ ys) st = deliver_all g ys (deliver_all g xs st)"
  by (induction xs arbitrary: st) simp_all

lemma onKeyDown_isComposing:
  "isComposing (snd (snd (onKeyDown g e st))) = isComposing st"
  by (simp add: onKeyDown_def Let_def split: prod.splits)

lemma deliver_isComposing:
  "isComposing (snd (snd (deliver g i st))) =
     (if isStart i then True else if isEnd i then False else isComposing st)"
  by (cases i) (simp_all add: onCompositionStart_def onCompositionEnd_def onKeyDown_isComposing)

lemma composition_active_Nil: "\<not> composition_active []"
  by (simp add: composition_active_def)

lemma composition_active_snoc:
  "composition_active (ins @ [i]) = (isStart i \<or> (\<not> isEnd i \<and> composition_active ins))"
proof -
  define n where "n = length ins"
  define P where "P k = (isStart ((ins @ [i]) ! k) \<and> (\<forall>j \<in> {k<..<Suc n}. \<not> isEnd ((ins @ [i]) ! j)))" for k
  have "{n<..<Suc n} = {}" by auto
  then have last: "P n = isStart i"
    by (simp add: P_def n_def)
  have before: "P k = (isStart (ins ! k) \<and> (\<forall>j \<in> {k<..<n}. \<not> isEnd (ins ! j)) \<and> \<not> isEnd i)"
    if "k \<in> {..<n}" for k
  proof -
    from that have "{k<..<Suc n} = insert n {k<..<n}" by auto
    with that show ?thesis
      by (auto simp add: P_def n_def nth_append)
  qed
  have "composition_active (ins @ [i]) = (\<exists>k \<in> insert n {..<n}. P k)"
    by (simp add: composition_active_def P_def n_def lessThan_Suc)
  also have "\<dots> = (P n \<or> (\<exists>k \<in> {..<n}. P k))"
    by simp
  also have "\<dots> = (isStart i \<or> (\<exists>k \<in> {..<n}. isStart (ins ! k)
                        \<and> (\<forall>j \<in> {k<..<n}. \<not> isEnd (ins ! j)) \<and> \<not> isEnd i))"
    using before by (simp add: last)
  also have "\<dots> = (isStart i \<or> (\<not> isEnd i \<and> composition_active ins))"
    unfolding composition_active_def n_def by blast
  finally show ?thesis .
qed

lemma isComposing_deliver_all:
  "isComposing (deliver_all g ins (gate_init w)) = composition_active ins"
proof (induction ins rule: rev_induct)
  case Nil
  show ?case by (simp add: gate_init_def composition_active_Nil)
next
  case (snoc i ins)
  then show ?case
    by (cases i) (simp_all add: deliver_all_append deliver_isComposing composition_active_snoc
        onCompositionStart_def onCompositionEnd_def onKeyDown_isComposing)
qed

lemma onKeyDown_composing:
  "isComposing st \<Longrightarrow> onKeyDown g e st = (Normal, e, st)"
  by (simp add: onKeyDown_def)

lemma onKeyDown_eq:
  "onKeyDown g e st =
     (if qualifyingEnter g st e
      then (case callback (config g) e (env st) of
              (c, e', w') \<Rightarrow> (c, e', st\<lparr>calls := calls st @ [e], env := w'\<rparr>))
      else (Normal, e, st))"
  unfolding onKeyDown_def qualifyingEnter_def Let_def
  by (cases "key e = ''Enter''"; cases "isComposing st"; cases "allowBasicEnter (config g)";
      cases "allowPlatformEnter (config g)") simp_all

text \<open>
  Claim C2. For every gate and every sequence of compositionstart, compositionend and
  keydown events delivered to a fresh instance: the composition flag is false initially,
  and after the sequence it is true exactly when a compositionstart has been delivered
  with no compositionend after it; and while it is true, an Enter keydown with any
  modifiers, under any configuration and platform, returns without invoking the callback
  and without changing anything.
\<close>

theorem gate_composition_state:
  "\<not> isComposing (gate_init w)
   \<and> isComposing (deliver_all g ins (gate_init w)) = composition_active ins
   \<and> (composition_active ins \<longrightarrow>
        (\<forall>e. key e = ''Enter'' \<longrightarrow>
           onKeyDown g e (deliver_all g ins (gate_init w)) = (Normal, e, deliver_all g ins (gate_init w))
           \<and> invokes_not g e (deliver_all g ins (gate_init w))))"
proof -
  have "\<not> isComposing (gate_init w)" by (simp add: gate_init_def)
  then show ?thesis
    by (simp add: isComposing_deliver_all onKeyDown_composing invokes_not_def)
qed

text \<open>The theorem for C2 at a keydown between a compositionstart and its compositionend.\<close>

theorem gate_composition_state_witness:
  "composition_active [CompositionStart letterEvent, KeyDown letterEvent]
   \<and> key (enterEvent\<lparr>metaKey := True\<rparr>) = ''Enter''
   \<and> invokes_not (useCallbackOnEnter platformOnly macAgent) (enterEvent\<lparr>metaKey := True\<rparr>)
        (deliver_all (useCallbackOnEnter platformOnly macAgent)
           [CompositionStart letterEvent, KeyDown letterEvent] (gate_init 0))
   \<and> \<not> composition_active [CompositionStart letterEvent, CompositionEnd letterEvent]"
proof -
  have a: "composition_active [CompositionStart letterEvent, KeyDown letterEvent]"
    using composition_active_snoc[of "[]" "CompositionStart letterEvent"]
      composition_active_snoc[of "[CompositionStart letterEvent]" "KeyDown letterEvent"]
    by simp
  have n: "\<not> composition_active [CompositionStart letterEvent, CompositionEnd letterEvent]"
    using composition_active_snoc[of "[CompositionStart letterEvent]" "CompositionEnd letterEvent"]
    by simp
  have k: "key (enterEvent\<lparr>metaKey := True\<rparr>) = ''Enter''" by (simp add: enterEvent_def)
  from a k n
    gate_composition_state[of 0 "useCallbackOnEnter platformOnly macAgent"
      "[CompositionStart letterEvent, KeyDown letterEvent]"]
  show ?thesis by blast
qed

text \<open>
  Claim C3. For every gate (any \<^verbatim>\<open>allowBasicEnter\<close> and \<^verbatim>\<open>allowPlatformEnter\<close>, any
  platform, any composition state) and every keydown whose \<^verbatim>\<open>key\<close> is not \<^verbatim>\<open>"Enter"\<close>,
  \<^verbatim>\<open>onKeyDown\<close> returns without invoking the callback.
\<close>

theorem gate_ignores_other_keys:
  "key e \<noteq> ''Enter'' \<Longrightarrow> onKeyDown g e st = (Normal, e, st) \<and> invokes_not g e st"
  by (simp add: onKeyDown_def invokes_not_def)

text \<open>The theorem for C3 at the key \<^verbatim>\<open>a\<close>.\<close>

theorem gate_ignores_other_keys_witness:
  "key letterEvent \<noteq> ''Enter''
   \<and> onKeyDown (useCallbackOnEnter basicOnly macAgent) letterEvent (gate_init 0)
       = (Normal, letterEvent, gate_init 0)
   \<and> invokes_not (useCallbackOnEnter basicOnly macAgent) letterEvent (gate_init 0)"
proof -
  have k: "key letterEvent \<noteq> ''Enter''" by (simp add: letterEvent_def)
  from k gate_ignores_other_keys[OF k, of "useCallbackOnEnter basicOnly macAgent" "gate_init 0"]
  show ?thesis by simp
qed

text \<open>
  Claim C4. For a gate that is not composing and an Enter keydown:
  with \<^verbatim>\<open>allowBasicEnter\<close> true and \<^verbatim>\<open>allowPlatformEnter\<close> false, the callback is invoked
  exactly once when none of Meta, Ctrl, Shift, Alt is held, and when Shift is held
  \<^verbatim>\<open>onKeyDown\<close> returns with nothing called and nothing changed; with \<^verbatim>\<open>allowBasicEnter\<close>
  false and \<^verbatim>\<open>allowPlatformEnter\<close> true, on a platform whose user agent contains
  \<^verbatim>\<open>Mac\<close> the callback is invoked once for Enter with Meta and not for Enter with Ctrl (and
  no Meta), and on any other platform it is invoked once for Enter with Ctrl and not for
  Enter with Meta (and no Ctrl). Invoked once means that what \<^verbatim>\<open>onKeyDown\<close> returns is
  what one application of the callback to the event and the environment returns.
\<close>

theorem gate_enter_policy:
  assumes "\<not> isComposing st" and "key e = ''Enter''"
  shows "(allowBasicEnter props \<and> \<not> allowPlatformEnter props
            \<and> \<not> metaKey e \<and> \<not> ctrlKey e \<and> \<not> shiftKey e \<and> \<not> altKey e
          \<longrightarrow> invokes_once (useCallbackOnEnter props ua) e st)
       \<and> (allowBasicEnter props \<and> \<not> allowPlatformEnter props \<and> shiftKey e
          \<longrightarrow> onKeyDown (useCallbackOnEnter props ua) e st = (Normal, e, st))
       \<and> (\<not> allowBasicEnter props \<and> allowPlatformEnter props \<and> sublist ''Mac'' ua \<and> metaKey e
          \<longrightarrow> invokes_once (useCallbackOnEnter props ua) e st)
       \<and> (\<not> allowBasicEnter props \<and> allowPlatformEnter props \<and> sublist ''Mac'' ua
            \<and> ctrlKey e \<and> \<not> metaKey e
          \<longrightarrow> onKeyDown (useCallbackOnEnter props ua) e st = (Normal, e, st))
       \<and> (\<not> allowBasicEnter props \<and> allowPlatformEnter props \<and> \<not> sublist ''Mac'' ua \<and> ctrlKey e
          \<longrightarrow> invokes_once (useCallbackOnEnter props ua) e st)
       \<and> (\<not> allowBasicEnter props \<and> allowPlatformEnter props \<and> \<not> sublist ''Mac'' ua
            \<and> metaKey e \<and> \<not> ctrlKey e
          \<longrightarrow> onKeyDown (useCallbackOnEnter props ua) e st = (Normal, e, st))"
  using assms
  by (simp add: invokes_once_def onKeyDown_eq qualifyingEnter_def useCallbackOnEnter_def)

text \<open>
  The theorem for C4 at the six cases of the claim; the callback increments the
  environment, which is 1 after the keydowns that invoke it and 0 after the others.
\<close>

theorem gate_enter_policy_witness:
  "\<not> isComposing (gate_init (0::nat)) \<and> key enterEvent = ''Enter''
   \<and> sublist ''Mac'' macAgent \<and> \<not> sublist ''Mac'' linuxAgent
   \<and> onKeyDown (useCallbackOnEnter basicOnly macAgent) enterEvent (gate_init 0)
       = (Normal, enterEvent, \<lparr>isComposing = False, calls = [enterEvent], env = 1\<rparr>)
   \<and> onKeyDown (useCallbackOnEnter basicOnly macAgent) (enterEvent\<lparr>shiftKey := True\<rparr>) (gate_init 0)
       = (Normal, enterEvent\<lparr>shiftKey := True\<rparr>, gate_init 0)
   \<and> onKeyDown (useCallbackOnEnter platformOnly macAgent) (enterEvent\<lparr>metaKey := True\<rparr>) (gate_init 0)
       = (Normal, enterEvent\<lparr>metaKey := True\<rparr>,
          \<lparr>isComposing = False, calls = [enterEvent\<lparr>metaKey := True\<rparr>], env = 1\<rparr>)
   \<and> onKeyDown (useCallbackOnEnter platformOnly macAgent) (enterEvent\<lparr>ctrlKey := True\<rparr>) (gate_init 0)
       = (Normal, enterEvent\<lparr>ctrlKey := True\<rparr>, gate_init 0)
   \<and> onKeyDown (useCallbackOnEnter platformOnly linuxAgent) (enterEvent\<lparr>ctrlKey := True\<rparr>) (gate_init 0)
       = (Normal, enterEvent\<lparr>ctrlKey := True\<rparr>,
          \<lparr>isComposing = False, calls = [enterEvent\<lparr>ctrlKey := True\<rparr>], env = 1\<rparr>)
   \<and> onKeyDown (useCallbackOnEnter platformOnly linuxAgent) (enterEvent\<lparr>metaKey := True\<rparr>) (gate_init 0)
       = (Normal, enterEvent\<lparr>metaKey := True\<rparr>, gate_init 0)"
proof -
  have c: "\<not> isComposing (gate_init (0::nat))" by (simp add: gate_init_def)
  have m: "sublist ''Mac'' macAgent" and l: "\<not> sublist ''Mac'' linuxAgent"
    by (simp_all add: macAgent_def linuxAgent_def sublist_code(3))
  have k: "key enterEvent = ''Enter''" "key (enterEvent\<lparr>shiftKey := True\<rparr>) = ''Enter''"
    "key (enterEvent\<lparr>metaKey := True\<rparr>) = ''Enter''" "key (enterEvent\<lparr>ctrlKey := True\<rparr>) = ''Enter''"
    by (simp_all add: enterEvent_def)
  have p: "allowBasicEnter basicOnly" "\<not> allowPlatformEnter basicOnly"
    "\<not> allowBasicEnter platformOnly" "allowPlatformEnter platformOnly"
    by (simp_all add: basicOnly_def platformOnly_def)
  have f: "\<not> metaKey enterEvent" "\<not> ctrlKey enterEvent" "\<not> shiftKey enterEvent" "\<not> altKey enterEvent"
    by (simp_all add: enterEvent_def)
  have cb: "callback (config (useCallbackOnEnter basicOnly ua)) = counting_handler"
    "callback (config (useCallbackOnEnter platformOnly ua)) = counting_handler" for ua
    by (simp_all add: useCallbackOnEnter_def basicOnly_def platformOnly_def)
  from c k p f m l
    gate_enter_policy[OF c k(1), of basicOnly macAgent]
    gate_enter_policy[OF c k(2), of basicOnly macAgent]
    gate_enter_policy[OF c k(3), of platformOnly macAgent]
    gate_enter_policy[OF c k(4), of platformOnly macAgent]
    gate_enter_policy[OF c k(4), of platformOnly linuxAgent]
    gate_enter_policy[OF c k(3), of platformOnly linuxAgent]
  show ?thesis
    by (simp add: invokes_once_def cb counting_handler_def gate_init_def)
qed

text \<open>
  Claim C5. For a gate with \<^verbatim>\<open>allowBasicEnter\<close> true, the sequence compositionstart,
  modifierless Enter keydown, compositionend, modifierless Enter keydown, delivered to a
  fresh instance, invokes the callback exactly once in total: after the first Enter, and
  after the compositionend, nothing has been invoked and the environment is as it was;
  after the second Enter the history holds that keydown's event alone and the
  environment is what one application of the callback to that event made of it.
\<close>

theorem gate_enter_after_composition:
  assumes "allowBasicEnter (config g)" and "plainEnter e1" and "plainEnter e2"
  shows "deliver_all g [CompositionStart c1, KeyDown e1] (gate_init w)
           = \<lparr>isComposing = True, calls = [], env = w\<rparr>
         \<and> deliver_all g [CompositionStart c1, KeyDown e1, CompositionEnd c2] (gate_init w)
           = \<lparr>isComposing = False, calls = [], env = w\<rparr>
         \<and> deliver_all g [CompositionStart c1, KeyDown e1, CompositionEnd c2, KeyDown e2] (gate_init w)
           = \<lparr>isComposing = False, calls = [e2], env = snd (snd (callback (config g) e2 w))\<rparr>"
  using assms
  by (simp add: onKeyDown_eq qualifyingEnter_def onCompositionStart_def onCompositionEnd_def
      gate_init_def plainEnter_def split: prod.splits)

text \<open>The theorem for C5 at a concrete gate; the counter shows the single call.\<close>

theorem gate_enter_after_composition_witness:
  "allowBasicEnter (config (useCallbackOnEnter basicOnly linuxAgent)) \<and> plainEnter enterEvent
   \<and> deliver_all (useCallbackOnEnter basicOnly linuxAgent)
        [CompositionStart letterEvent, KeyDown enterEvent] (gate_init 0)
       = \<lparr>isComposing = True, calls = [], env = 0\<rparr>
   \<and> deliver_all (useCallbackOnEnter basicOnly linuxAgent)
        [CompositionStart letterEvent, KeyDown enterEvent, CompositionEnd letterEvent,
         KeyDown enterEvent] (gate_init 0)
       = \<lparr>isComposing = False, calls = [enterEvent], env = 1\<rparr>"
proof -
  have a: "allowBasicEnter (config (useCallbackOnEnter basicOnly linuxAgent))"
    by (simp add: useCallbackOnEnter_def basicOnly_def)
  have p: "plainEnter enterEvent" by (simp add: plainEnter_def enterEvent_def)
  have v: "snd (snd (callback (config (useCallbackOnEnter basicOnly linuxAgent)) enterEvent 0)) = 1"
    by (simp add: useCallbackOnEnter_def basicOnly_def counting_handler_def)
  note t = gate_enter_after_composition[OF a p p, of letterEvent 0 letterEvent]
  note t1 = t[THEN conjunct1]
  note t3 = t[THEN conjunct2, THEN conjunct2, unfolded v]
  from a p t1 t3 show ?thesis by (intro conjI)
qed

text \<open>
  Claim C8. Handling a compositionstart or a compositionend completes normally, leaves
  the event object and the environment as they were, invokes nothing and only writes the
  composition flag. Handling a keydown leaves the composition flag as it was; unless the
  keydown is a qualifying Enter it completes normally and changes nothing at all (the
  event object, its default-prevented flag included, and the state are returned
  unchanged); on a qualifying Enter the callback is invoked exactly once with the event,
  and the completion, the event object and the environment are exactly what that one
  invocation made of them: the gate adds no throw and no write of its own.
\<close>

theorem gate_frame:
  "onCompositionStart e st = (Normal, e, st\<lparr>isComposing := True\<rparr>)
   \<and> onCompositionEnd e st = (Normal, e, st\<lparr>isComposing := False\<rparr>)
   \<and> isComposing (snd (snd (onKeyDown g e st))) = isComposing st
   \<and> (\<not> qualifyingEnter g st e \<longrightarrow> onKeyDown g e st = (Normal, e, st))
   \<and> (qualifyingEnter g st e \<longrightarrow>
        calls (snd (snd (onKeyDown g e st))) = calls st @ [e]
        \<and> (fst (onKeyDown g e st), fst (snd (onKeyDown g e st)), env (snd (snd (onKeyDown g e st))))
            = callback (config g) e (env st))"
proof (cases "qualifyingEnter g st e")
  case True
  then show ?thesis
    by (simp add: onCompositionStart_def onCompositionEnd_def onKeyDown_eq split: prod.splits)
next
  case False
  then show ?thesis
    by (simp add: onCompositionStart_def onCompositionEnd_def onKeyDown_eq)
qed

text \<open>
  The theorem for C8 at a qualifying and at a non-qualifying keydown of a concrete gate
  whose callback does not touch the event.
\<close>

theorem gate_frame_witness:
  "qualifyingEnter (useCallbackOnEnter basicOnly macAgent) (gate_init 0) enterEvent
   \<and> onKeyDown (useCallbackOnEnter basicOnly macAgent) enterEvent (gate_init 0)
       = (Normal, enterEvent, \<lparr>isComposing = False, calls = [enterEvent], env = 1\<rparr>)
   \<and> \<not> qualifyingEnter (useCallbackOnEnter basicOnly macAgent) (gate_init 0)
         (enterEvent\<lparr>shiftKey := True\<rparr>)
   \<and> onKeyDown (useCallbackOnEnter basicOnly macAgent) (enterEvent\<lparr>shiftKey := True\<rparr>) (gate_init 0)
       = (Normal, enterEvent\<lparr>shiftKey := True\<rparr>, gate_init 0)"
proof -
  have q: "qualifyingEnter (useCallbackOnEnter basicOnly macAgent) (gate_init 0) enterEvent"
    and n: "\<not> qualifyingEnter (useCallbackOnEnter basicOnly macAgent) (gate_init 0)
              (enterEvent\<lparr>shiftKey := True\<rparr>)"
    by (simp_all add: qualifyingEnter_def useCallbackOnEnter_def basicOnly_def gate_init_def
        enterEvent_def)
  have c: "callback (config (useCallbackOnEnter basicOnly macAgent)) enterEvent (env (gate_init 0))
             = (Normal, enterEvent, 1)"
    by (simp add: useCallbackOnEnter_def basicOnly_def gate_init_def counting_handler_def)
  from q c gate_frame[of enterEvent "gate_init 0" "useCallbackOnEnter basicOnly macAgent"]
  have "onKeyDown (useCallbackOnEnter basicOnly macAgent) enterEvent (gate_init 0)
       = (Normal, enterEvent, \<lparr>isComposing = False, calls = [enterEvent], env = 1\<rparr>)"
    by (cases "onKeyDown (useCallbackOnEnter basicOnly macAgent) enterEvent (gate_init 0)")
       (auto simp add: gate_init_def gate_state.equality)
  with q n
    gate_frame[of "enterEvent\<lparr>shiftKey := True\<rparr>" "gate_init 0" "useCallbackOnEnter basicOnly macAgent"]
  show ?thesis by simp
qed

section \<open>The form-submit callbacks\<close>

text \<open>
  Claim C9. The callbacks that \<^verbatim>\<open>Input\<close> and \<^verbatim>\<open>TextArea\<close> wrap with the gate
  (\<^verbatim>\<open>onFormSubmit\<close> and \<^verbatim>\<open>handleSubmitForm\<close>) request a submit only when a form is
  attached. If the form context's ref is \<^verbatim>\<open>null\<close> or \<^verbatim>\<open>undefined\<close>, or its \<^verbatim>\<open>current\<close>
  is, the callback returns with no effect: the event is unchanged and no call is made on
  a collaborator. If a form is attached, the callback calls \<^verbatim>\<open>preventDefault\<close> on the
  event and then \<^verbatim>\<open>requestSubmit\<close> on that form, each exactly once and in this order.
\<close>

theorem form_submit_needs_attached_form:
  "(formRef fc = Null \<or> formRef fc = Undefined \<or> (\<exists>r. formRef fc = Val r \<and> absent (current r))
      \<longrightarrow> onFormSubmit fc e tr = (Normal, e, tr) \<and> handleSubmitForm fc e tr = (Normal, e, tr))
   \<and> (\<forall>r f. formRef fc = Val r \<and> current r = Val f
      \<longrightarrow> onFormSubmit fc e tr
            = (Normal, e\<lparr>defaultPrevented := True\<rparr>, tr @ [PreventDefault, RequestSubmit f])
          \<and> handleSubmitForm fc e tr
            = (Normal, e\<lparr>defaultPrevented := True\<rparr>, tr @ [PreventDefault, RequestSubmit f]))
   \<and> callback (config (Input_submitHandlers fc ua)) = onFormSubmit fc
   \<and> callback (config (TextArea_submitHandlers fc b ua)) = handleSubmitForm fc"
proof (intro conjI impI allI)
  assume a: "formRef fc = Null \<or> formRef fc = Undefined \<or> (\<exists>r. formRef fc = Val r \<and> absent (current r))"
  have "attached_form fc = None"
  proof (cases "formRef fc")
    case (Val r)
    with a have "absent (current r)" by auto
    with Val show ?thesis by (cases "current r") simp_all
  qed simp_all
  then show "onFormSubmit fc e tr = (Normal, e, tr)" and "handleSubmitForm fc e tr = (Normal, e, tr)"
    by (simp_all add: onFormSubmit_def handleSubmitForm_def)
next
  fix r f
  assume "formRef fc = Val r \<and> current r = Val f"
  then have "attached_form fc = Some f" by simp
  then show "onFormSubmit fc e tr
            = (Normal, e\<lparr>defaultPrevented := True\<rparr>, tr @ [PreventDefault, RequestSubmit f])"
    and "handleSubmitForm fc e tr
            = (Normal, e\<lparr>defaultPrevented := True\<rparr>, tr @ [PreventDefault, RequestSubmit f])"
    by (simp_all add: onFormSubmit_def handleSubmitForm_def preventDefault_def requestSubmit_def)
next
  show "callback (config (Input_submitHandlers fc ua)) = onFormSubmit fc"
    by (simp add: Input_submitHandlers_def useCallbackOnEnter_def)
  show "callback (config (TextArea_submitHandlers fc b ua)) = handleSubmitForm fc"
    by (simp add: TextArea_submitHandlers_def useCallbackOnEnter_def)
qed

text \<open>The theorem for C9 at a context with an empty ref and at one with a form attached.\<close>

theorem form_submit_needs_attached_form_witness:
  "formRef \<lparr>formRef = Val \<lparr>current = Null\<rparr>\<rparr> = Val \<lparr>current = Null\<rparr>
   \<and> absent (current \<lparr>current = Null\<rparr>)
   \<and> onFormSubmit \<lparr>formRef = Val \<lparr>current = Null\<rparr>\<rparr> enterEvent [] = (Normal, enterEvent, [])
   \<and> formRef \<lparr>formRef = Val \<lparr>current = Val (Form ''login'')\<rparr>\<rparr> = Val \<lparr>current = Val (Form ''login'')\<rparr>
   \<and> current \<lparr>current = Val (Form ''login'')\<rparr> = Val (Form ''login'')
   \<and> handleSubmitForm \<lparr>formRef = Val \<lparr>current = Val (Form ''login'')\<rparr>\<rparr> enterEvent []
       = (Normal, enterEvent\<lparr>defaultPrevented := True\<rparr>, [PreventDefault, RequestSubmit (Form ''login'')])"
  using form_submit_needs_attached_form[of "\<lparr>formRef = Val \<lparr>current = Null\<rparr>\<rparr>" enterEvent "[]"]
        form_submit_needs_attached_form[of "\<lparr>formRef = Val \<lparr>current = Val (Form ''login'')\<rparr>\<rparr>" enterEvent "[]"]
  by simp

section \<open>Once until reset\<close>

lemma exec_plain:
  "plain b \<Longrightarrow>
     exec n cb b st =
       Some (fst (own_effect b (once_env st)), st\<lparr>once_env := snd (own_effect b (once_env st))\<rparr>)"
  by (induction b arbitrary: st) simp_all

lemma call_armed:
  assumes "plain cb" and "fst (own_effect cb (once_env st)) = Normal" and "canTriggerRef st"
  shows "callbackOnceUntilReset (Suc n) cb st =
           Some (Normal, st\<lparr>invocations := Suc (invocations st),
                            once_env := snd (own_effect cb (once_env st)),
                            canTriggerRef := False\<rparr>)"
  using assms by (simp add: exec_plain)

lemma call_disarmed:
  "\<not> canTriggerRef st \<Longrightarrow> callbackOnceUntilReset n cb st = Some (Normal, st)"
  by (cases n) simp_all

lemma once_run_snoc:
  "once_run n cb (cs @ [c]) st =
     (case once_run n cb cs st of
        None \<Rightarrow> None
      | Some st' \<Rightarrow> (case once_step n cb c st' of None \<Rightarrow> None | Some (r, st'') \<Rightarrow> Some st''))"
  by (induction cs arbitrary: st) (auto split: option.splits)

lemma first_since_reset_eq:
  "first_since_reset cs i = (i = 0 \<or> cs ! (i - 1) = Reset)"
proof (cases i)
  case 0
  then show ?thesis by (simp add: first_since_reset_def)
next
  case (Suc m)
  show ?thesis
  proof (cases "cs ! m")
    case CallOnce
    have "{m<..<Suc m} = {}" by auto
    with CallOnce have "\<not> first_since_reset cs (Suc m)"
      unfolding first_since_reset_def by (auto intro!: bexI[of _ m])
    with Suc CallOnce show ?thesis by simp
  next
    case Reset
    have "\<exists>k \<in> {j<..<Suc m}. cs ! k = Reset" if "j < Suc m" "cs ! j = CallOnce" for j
    proof -
      from that Reset have "j \<noteq> m" by auto
      with that have "m \<in> {j<..<Suc m}" by auto
      with Reset show ?thesis by blast
    qed
    then have "first_since_reset cs (Suc m)"
      unfolding first_since_reset_def by auto
    with Suc Reset show ?thesis by simp
  qed
qed

lemma once_step_plain:
  assumes "plain cb" and "\<forall>w. fst (own_effect cb w) = Normal"
  shows "once_step (Suc n) cb c st =
           Some (Normal,
                 if c = Reset then st\<lparr>canTriggerRef := True\<rparr>
                 else if canTriggerRef st
                   then st\<lparr>invocations := Suc (invocations st),
                           once_env := snd (own_effect cb (once_env st)),
                           canTriggerRef := False\<rparr>
                   else st)"
proof (cases c)
  case CallOnce
  show ?thesis
  proof (cases "canTriggerRef st")
    case True
    with CallOnce assms show ?thesis by (simp add: call_armed del: callbackOnceUntilReset.simps)
  next
    case False
    with CallOnce show ?thesis by (simp add: call_disarmed del: callbackOnceUntilReset.simps)
  qed
next
  case Reset
  then show ?thesis by (simp add: reset_def)
qed

lemma once_run_plain:
  assumes "plain cb" and "\<forall>w. fst (own_effect cb w) = Normal" and "i \<le> length cs"
  shows "\<exists>st. once_run (Suc n) cb (take i cs) (once_init w) = Some st
              \<and> canTriggerRef st = first_since_reset cs i"
  using assms(3)
proof (induction i)
  case 0
  show ?case by (simp add: once_init_def first_since_reset_eq)
next
  case (Suc i)
  then obtain st where st: "once_run (Suc n) cb (take i cs) (once_init w) = Some st" by auto
  from Suc.prems have t: "take (Suc i) cs = take i cs @ [cs ! i]"
    by (simp add: take_Suc_conv_app_nth)
  show ?case
    unfolding t once_run_snoc st
    by (cases "cs ! i")
       (simp_all add: once_step_plain[OF assms(1,2)] first_since_reset_eq
          del: once_step.simps)
qed

text \<open>
  Claim C10, amended: for a wrapped callback that returns normally whenever it is called
  and does not itself call \<^verbatim>\<open>callbackOnceUntilReset\<close> or \<^verbatim>\<open>reset\<close>, and any sequence of
  calls of the two returned functions on a fresh instance, every call returns, and call
  number \<open>i\<close> does this: a \<^verbatim>\<open>reset\<close> sets the flag and nothing else; a
  \<^verbatim>\<open>callbackOnceUntilReset\<close> that is the first since creation or since the latest
  \<^verbatim>\<open>reset\<close> invokes the wrapped callback exactly once (the environment is what one run
  of the callback makes of it) and clears the flag; any other
  \<^verbatim>\<open>callbackOnceUntilReset\<close> invokes it zero times and changes nothing. So the callback
  is invoked at most once between consecutive resets.
\<close>

theorem once_until_reset:
  assumes "plain cb" and "\<forall>w. fst (own_effect cb w) = Normal" and "i < length cs"
  shows "\<exists>st. once_run (Suc n) cb (take i cs) (once_init w) = Some st
           \<and> once_run (Suc n) cb (take (Suc i) cs) (once_init w) =
               Some (if cs ! i = Reset then st\<lparr>canTriggerRef := True\<rparr>
                     else if first_since_reset cs i
                       then st\<lparr>invocations := Suc (invocations st),
                               once_env := snd (own_effect cb (once_env st)),
                               canTriggerRef := False\<rparr>
                       else st)"
proof -
  from assms(3) have "i \<le> length cs" by simp
  from once_run_plain[OF assms(1,2) this, of n w]
  obtain st where st: "once_run (Suc n) cb (take i cs) (once_init w) = Some st"
    and c: "canTriggerRef st = first_since_reset cs i" by blast
  from assms(3) have t: "take (Suc i) cs = take i cs @ [cs ! i]"
    by (simp add: take_Suc_conv_app_nth)
  have "once_run (Suc n) cb (take (Suc i) cs) (once_init w) =
               Some (if cs ! i = Reset then st\<lparr>canTriggerRef := True\<rparr>
                     else if first_since_reset cs i
                       then st\<lparr>invocations := Suc (invocations st),
                               once_env := snd (own_effect cb (once_env st)),
                               canTriggerRef := False\<rparr>
                       else st)"
    unfolding t once_run_snoc st
    by (simp add: once_step_plain[OF assms(1,2)] c del: once_step.simps)
  with st show ?thesis by blast
qed

text \<open>
  Claim C10 as written covers every wrapped callback. The flag is cleared only after
  \<^verbatim>\<open>callback()\<close> has returned. A callback that, while it runs, calls
  \<^verbatim>\<open>callbackOnceUntilReset()\<close> finds the flag still set: one call on a fresh instance
  then runs the callback twice, and returns normally. And a callback that throws leaves
  the flag set: the second of two calls without a \<^verbatim>\<open>reset\<close> between them, which is not
  the first since creation, invokes it again.
\<close>

theorem once_until_reset_counterexample:
  "callbackOnceUntilReset (Suc (Suc 0)) reentering_body (once_init 0)
     = Some (Normal, \<lparr>canTriggerRef = False, invocations = 2, once_env = 2\<rparr>)
   \<and> \<not> first_since_reset [CallOnce, CallOnce] 1
   \<and> once_run (Suc 0) throwing_body [CallOnce] (once_init 0)
       = Some \<lparr>canTriggerRef = True, invocations = 1, once_env = 1\<rparr>
   \<and> once_run (Suc 0) throwing_body [CallOnce, CallOnce] (once_init 0)
       = Some \<lparr>canTriggerRef = True, invocations = 2, once_env = 2\<rparr>"
  by (simp add: reentering_body_def throwing_body_def first_time_def once_init_def
      first_since_reset_eq numeral_2_eq_2)

text \<open>The theorem for C10 at the calls call, call, reset, call.\<close>

theorem once_until_reset_witness:
  "plain counting_body \<and> (1::nat) < length [CallOnce, CallOnce, Reset, CallOnce]
   \<and> once_run (Suc 0) counting_body (take 1 [CallOnce, CallOnce, Reset, CallOnce]) (once_init 0)
       = Some \<lparr>canTriggerRef = False, invocations = 1, once_env = 1\<rparr>
   \<and> once_run (Suc 0) counting_body (take 2 [CallOnce, CallOnce, Reset, CallOnce]) (once_init 0)
       = Some \<lparr>canTriggerRef = False, invocations = 1, once_env = 1\<rparr>
   \<and> once_run (Suc 0) counting_body (take 3 [CallOnce, CallOnce, Reset, CallOnce]) (once_init 0)
       = Some \<lparr>canTriggerRef = True, invocations = 1, once_env = 1\<rparr>
   \<and> once_run (Suc 0) counting_body (take 4 [CallOnce, CallOnce, Reset, CallOnce]) (once_init 0)
       = Some \<lparr>canTriggerRef = False, invocations = 2, once_env = 2\<rparr>"
proof -
  let ?cs = "[CallOnce, CallOnce, Reset, CallOnce]"
  have p: "plain counting_body" by (simp add: counting_body_def)
  have r: "\<forall>w. fst (own_effect counting_body w) = Normal" by (simp add: counting_body_def)
  have e: "snd (own_effect counting_body w) = Suc w" for w by (simp add: counting_body_def)
  have t0: "once_run (Suc 0) counting_body (take 0 ?cs) (once_init 0)
              = Some \<lparr>canTriggerRef = True, invocations = 0, once_env = 0\<rparr>"
    by (simp add: once_init_def)
  have t1: "once_run (Suc 0) counting_body (take 1 ?cs) (once_init 0)
       = Some \<lparr>canTriggerRef = False, invocations = 1, once_env = 1\<rparr>"
    using once_until_reset[OF p r, of 0 ?cs 0 0] t0
    by (simp add: first_since_reset_eq e del: once_run.simps)
  have t2: "once_run (Suc 0) counting_body (take 2 ?cs) (once_init 0)
       = Some \<lparr>canTriggerRef = False, invocations = 1, once_env = 1\<rparr>"
    using once_until_reset[OF p r, of 1 ?cs 0 0] t1
    by (simp add: first_since_reset_eq e numeral_2_eq_2 del: once_run.simps)
  have t3: "once_run (Suc 0) counting_body (take 3 ?cs) (once_init 0)
       = Some \<lparr>canTriggerRef = True, invocations = 1, once_env = 1\<rparr>"
    using once_until_reset[OF p r, of 2 ?cs 0 0] t2
    by (simp add: first_since_reset_eq e del: once_run.simps)
  have t4: "once_run (Suc 0) counting_body (take 4 ?cs) (once_init 0)
       = Some \<lparr>canTriggerRef = False, invocations = 2, once_env = 2\<rparr>"
    using once_until_reset[OF p r, of 3 ?cs 0 0] t3
    by (simp add: first_since_reset_eq e del: once_run.simps)
  from p t1 t2 t3 t4 show ?thesis by simp
qed

end
